theory Spec2Isabelle
  imports Complex_Main "HOL-Library.Multiset" "HOL-Library.Sublist"
begin

section \<open>Non-maximum suppression: the class \<open>nms\<close> of non\_max\_supression.py\<close>

text \<open>
  Numbers. Every number of the program is a Python float or a numpy float64. They are
  modelled by \<^typ>\<open>real\<close>: rounding, overflow, infinities and NaN are outside the
  model, and the literal \<open>1e-5\<close> is the real number \<open>1 / 100000\<close>.

  Input. \<open>get_data\<close> reads a text file; the model starts after \<open>line.split\<close> and
  \<open>float\<close>: a file is the list of its lines, each line the list of its numbers.

  Arrays. A two-dimensional numpy array is the list of its rows, a row the list of its
  entries. An exception of the program is a value \<open>Inl e\<close>.
\<close>

datatype error = IndexError | ValueError | TypeError | ZeroDivisionError

record nms =
  data :: "real list list option"
  final_res :: "real list list option"

text \<open>\<open>__init__\<close>: both fields are \<open>None\<close>.\<close>

definition init :: nms where
  "init = \<lparr>data = None, final_res = None\<rparr>"

subsection \<open>\<open>get_data\<close>\<close>

text \<open>
  The test of line 55 on the field \<open>float_f\<close> at position \<open>i\<close> of a line. When it holds,
  \<open>continue\<close> goes on with the next field of the same line: the field is left out of
  \<open>l_clean\<close>, the line is kept.
\<close>

definition weird :: "real \<Rightarrow> nat \<Rightarrow> bool" where
  "weird float_f i \<longleftrightarrow>
     float_f < 0 \<or> ((i = 2 \<or> i = 3) \<and> float_f \<le> 0) \<or> (i = 4 \<and> float_f > 1)"

text \<open>Lines 48 to 57: the fields of the line \<open>l\<close> that pass the test, in order.\<close>

definition clean :: "real list \<Rightarrow> real list" where
  "clean l = map fst (filter (\<lambda>(float_f, i). \<not> weird float_f i) (zip l [0..<length l]))"

text \<open>
  Lines 61 and 62 on the cleaned line: \<open>l_clean[2] += l_clean[0]\<close> and
  \<open>l_clean[3] += l_clean[1]\<close>, each an IndexError when the position does not exist.
\<close>

definition to_corners :: "real list \<Rightarrow> error + real list" where
  "to_corners l_clean =
     (if length l_clean \<le> 2 then Inl IndexError
      else let l2 = l_clean[2 := l_clean ! 2 + l_clean ! 0]
           in if length l2 \<le> 3 then Inl IndexError
              else Inr (l2[3 := l2 ! 3 + l2 ! 1]))"

text \<open>The loop of line 44 over the lines of the file, appending to \<open>self.data\<close>.\<close>

fun read_lines :: "real list list \<Rightarrow> real list list \<Rightarrow> error + real list list" where
  "read_lines [] acc = Inr acc"
| "read_lines (l # ls) acc =
     (case to_corners (clean l) of
        Inl e \<Rightarrow> Inl e
      | Inr l_clean \<Rightarrow> read_lines ls (acc @ [l_clean]))"

text \<open>
  \<open>np.array\<close> of a list of rows (line 67): rows of one length make a two-dimensional
  array; rows of different lengths are refused with a ValueError (numpy 1.24 and later).
\<close>

definition np_array :: "real list list \<Rightarrow> error + real list list" where
  "np_array rows =
     (if list_all (\<lambda>r. length r = length (hd rows)) rows then Inr rows else Inl ValueError)"

definition get_data :: "real list list \<Rightarrow> nms \<Rightarrow> error + nms" where
  "get_data file self =
     (case read_lines file [] of
        Inl e \<Rightarrow> Inl e
      | Inr rows \<Rightarrow>
          (case np_array rows of
             Inl e \<Rightarrow> Inl e
           | Inr arr \<Rightarrow> Inr (self\<lparr>data := Some arr\<rparr>)))"

subsection \<open>\<open>get_iou\<close>\<close>

text \<open>
  Lines 113 to 144. Reading \<open>b[0]\<close> to \<open>b[3]\<close> needs four entries. The division of
  line 143 is written with its fault, a zero denominator (a ZeroDivisionError on Python
  floats; on numpy scalars a warning and an infinity or a NaN, which the model has not).
\<close>

definition get_iou :: "real list \<Rightarrow> real list \<Rightarrow> error + real" where
  "get_iou b1 b2 =
     (if length b1 < 4 \<or> length b2 < 4 then Inl IndexError
      else
        let x1 = max (b1 ! 0) (b2 ! 0);
            y1 = max (b1 ! 1) (b2 ! 1);
            x2 = min (b1 ! 2) (b2 ! 2);
            y2 = min (b1 ! 3) (b2 ! 3);
            width = x2 - x1;
            height = y2 - y1
        in if width < 0 \<or> height < 0 then Inr 0
           else
             let area_intersect = width * height;
                 area_b1 = (b1 ! 2 - b1 ! 0) * (b1 ! 3 - b1 ! 1);
                 area_b2 = (b2 ! 2 - b2 ! 0) * (b2 ! 3 - b2 ! 1);
                 total_area = area_b1 + area_b2 - area_intersect
             in if total_area + 1 / 100000 = 0 then Inl ZeroDivisionError
                else Inr (area_intersect / (total_area + 1 / 100000)))"

subsection \<open>\<open>compute_nms\<close>\<close>

text \<open>
  Line 192: \<open>sorted(self.data, key=lambda x : x[-1])\<close>. Python's \<open>sorted\<close> is a stable
  sort, and so is \<^const>\<open>sort_key\<close>; \<open>x[-1]\<close> of a row without entries is an
  IndexError.
\<close>

definition sortedby_confidence :: "real list list \<Rightarrow> error + real list list" where
  "sortedby_confidence d =
     (if list_ex (\<lambda>x. x = []) d then Inl IndexError else Inr (sort_key last d))"

text \<open>The list comprehension of line 209: the first failing call stops it.\<close>

fun get_ious :: "real list \<Rightarrow> real list list \<Rightarrow> error + real list" where
  "get_ious best [] = Inr []"
| "get_ious best (b # bs) =
     (case get_iou best b of
        Inl e \<Rightarrow> Inl e
      | Inr v \<Rightarrow> (case get_ious best bs of Inl e \<Rightarrow> Inl e | Inr vs \<Rightarrow> Inr (v # vs)))"

text \<open>
  \<open>np.where(cond)[0]\<close>: the positions where the condition holds. \<open>np.delete(arr, ps)\<close>: the
  array without the entries at the positions \<open>ps\<close>. Both calls of the program pass
  positions that exist.
\<close>

definition np_where :: "bool list \<Rightarrow> nat list" where
  "np_where cond = filter (\<lambda>j. cond ! j) [0..<length cond]"

definition np_delete :: "'a list \<Rightarrow> nat list \<Rightarrow> 'a list" where
  "np_delete arr ps = map fst (filter (\<lambda>(x, j). j \<notin> set ps) (zip arr [0..<length arr]))"

text \<open>
  Lines 207 to 214, one round of the loop after the accepted index is recorded: the
  indices that remain once the last one is taken off and the ones whose box overlaps
  the accepted box by more than the threshold are deleted.
\<close>

definition remaining :: "real list list \<Rightarrow> real \<Rightarrow> nat list \<Rightarrow> error + nat list" where
  "remaining sd iou_threshold idxs =
     (let highest_pc_index = length idxs - 1;
          lst = butlast idxs
      in case get_ious (sd ! last idxs) (map (\<lambda>i. sd ! i) lst) of
           Inl e \<Rightarrow> Inl e
         | Inr ious \<Rightarrow>
             Inr (np_delete (np_delete idxs [highest_pc_index])
                    (np_where (map (\<lambda>v. v > iou_threshold) ious))))"

lemma length_np_delete_le: "length (np_delete arr ps) \<le> length arr"
proof -
  have "length (np_delete arr ps) \<le> length (zip arr [0..<length arr])"
    unfolding np_delete_def by (simp del: length_zip)
  then show ?thesis by simp
qed

lemma np_delete_last: "arr \<noteq> [] \<Longrightarrow> np_delete arr [length arr - 1] = butlast arr"
proof (induction arr rule: rev_induct)
  case Nil
  then show ?case by simp
next
  case (snoc x xs)
  have "filter (\<lambda>(y, j). j \<noteq> length xs) (zip xs [0..<length xs]) = zip xs [0..<length xs]"
    by (rule filter_True) (auto dest: set_zip_rightD)
  then show ?case
    by (simp add: np_delete_def)
qed

lemma remaining_shorter:
  assumes "remaining sd t idxs = Inr idxs'" and "idxs \<noteq> []"
  shows "length idxs' < length idxs"
proof -
  from assms(1) obtain ious where
    "idxs' = np_delete (np_delete idxs [length idxs - 1]) (np_where (map (\<lambda>v. v > t) ious))"
    by (auto simp: remaining_def Let_def split: sum.splits)
  then have "length idxs' \<le> length (np_delete idxs [length idxs - 1])"
    by (simp add: length_np_delete_le)
  also have "\<dots> = length idxs - 1"
    using assms(2) np_delete_last [of idxs] by simp
  also have "\<dots> < length idxs"
    using assms(2) by simp
  finally show ?thesis .
qed

text \<open>
  The loop of lines 200 to 216 over the index array, with the accepted indices \<open>res\<close>.
\<close>

function nms_loop :: "real list list \<Rightarrow> real \<Rightarrow> nat list \<Rightarrow> nat list \<Rightarrow> error + nat list" where
  "nms_loop sd iou_threshold idxs res =
     (if length idxs > 0 then
        (case remaining sd iou_threshold idxs of
           Inl e \<Rightarrow> Inl e
         | Inr idxs' \<Rightarrow> nms_loop sd iou_threshold idxs' (res @ [idxs ! (length idxs - 1)]))
      else Inr res)"
  by pat_completeness auto
termination
  by (relation "measure (\<lambda>(sd, t, idxs, res). length idxs)")
     (auto dest: remaining_shorter)

declare nms_loop.simps [simp del]

text \<open>
  Lines 221 and 222: \<open>final_res[:, j] -= final_res[:, k]\<close>, an IndexError when the array
  has no such column.
\<close>

definition sub_col :: "nat \<Rightarrow> nat \<Rightarrow> real list list \<Rightarrow> error + real list list" where
  "sub_col j k rows =
     (if list_ex (\<lambda>r. length r \<le> j \<or> length r \<le> k) rows then Inl IndexError
      else Inr (map (\<lambda>r. r[j := r ! j - r ! k]) rows))"

text \<open>
  \<open>compute_nms\<close> returns the list \<open>[]\<close> and leaves the object as it is when there is no
  data; otherwise it returns nothing (\<open>None\<close>) and sets \<open>self.final_res\<close>.
\<close>

definition compute_nms :: "real \<Rightarrow> nms \<Rightarrow> error + (real list list option \<times> nms)" where
  "compute_nms iou_threshold self =
     (case data self of
        None \<Rightarrow> Inl TypeError
      | Some d \<Rightarrow>
          if length d = 0 then Inr (Some [], self)
          else
            (case sortedby_confidence d of
               Inl e \<Rightarrow> Inl e
             | Inr sd \<Rightarrow>
                 (case nms_loop sd iou_threshold [0..<length sd] [] of
                    Inl e \<Rightarrow> Inl e
                  | Inr res \<Rightarrow>
                      (case sub_col 2 0 (map (\<lambda>i. sd ! i) res) of
                         Inl e \<Rightarrow> Inl e
                       | Inr fr \<Rightarrow>
                           (case sub_col 3 1 fr of
                              Inl e \<Rightarrow> Inl e
                            | Inr fr' \<Rightarrow> Inr (None, self\<lparr>final_res := Some fr'\<rparr>))))))"

text \<open>
  The result of a call: the returned list when there is one, \<open>self.final_res\<close> otherwise.
  \<open>suppress X t\<close> is the call on an object whose data is the array \<open>X\<close> (boxes in corner
  form); \<open>run file t\<close> is \<open>get_data\<close> followed by \<open>compute_nms\<close>, as in the main program.
\<close>

definition result_of :: "real \<Rightarrow> nms \<Rightarrow> error + real list list" where
  "result_of iou_threshold self =
     (case compute_nms iou_threshold self of
        Inl e \<Rightarrow> Inl e
      | Inr (ret, self') \<Rightarrow>
          (case ret of
             Some r \<Rightarrow> Inr r
           | None \<Rightarrow> (case final_res self' of None \<Rightarrow> Inl TypeError | Some fr \<Rightarrow> Inr fr)))"

definition suppress :: "real list list \<Rightarrow> real \<Rightarrow> error + real list list" where
  "suppress X iou_threshold = result_of iou_threshold (init\<lparr>data := Some X\<rparr>)"

definition run :: "real list list \<Rightarrow> real \<Rightarrow> error + real list list" where
  "run file iou_threshold =
     (case get_data file init of
        Inl e \<Rightarrow> Inl e
      | Inr self \<Rightarrow> result_of iou_threshold self)"

section \<open>Notions of the statements\<close>

text \<open>
  The definitions of this section are not functions of the program. They name what the
  theorems speak of: quantities that \<open>get_iou\<close> computes, the effect of the
  conversions on one row, the records that pass every test of \<open>get_data\<close>, and the
  greedy selection that the loop is shown to compute.
\<close>

text \<open>
  The width and height of the intersection (lines 113 to 120) and the area of a box
  (lines 132 and 133).
\<close>

definition inter_width :: "real list \<Rightarrow> real list \<Rightarrow> real" where
  "inter_width b1 b2 = min (b1 ! 2) (b2 ! 2) - max (b1 ! 0) (b2 ! 0)"

definition inter_height :: "real list \<Rightarrow> real list \<Rightarrow> real" where
  "inter_height b1 b2 = min (b1 ! 3) (b2 ! 3) - max (b1 ! 1) (b2 ! 1)"

definition area :: "real list \<Rightarrow> real" where
  "area b = (b ! 2 - b ! 0) * (b ! 3 - b ! 1)"

text \<open>
  The value of \<open>get_iou\<close>, for rows on which it returns one (every pair of rows with
  four entries or more, see \<open>get_iou_total\<close> below).
\<close>

definition iou :: "real list \<Rightarrow> real list \<Rightarrow> real" where
  "iou b1 b2 = (case get_iou b1 b2 of Inl e \<Rightarrow> 0 | Inr v \<Rightarrow> v)"

text \<open>
  The row that lines 61 and 62 make of a cleaned line, and the row that lines 221 and
  222 make of a row of \<open>final_res\<close>.
\<close>

definition corners :: "real list \<Rightarrow> real list" where
  "corners l = (let l2 = l[2 := l ! 2 + l ! 0] in l2[3 := l2 ! 3 + l2 ! 1])"

definition to_wh :: "real list \<Rightarrow> real list" where
  "to_wh r = (let r' = r[2 := r ! 2 - r ! 0] in r'[3 := r' ! 3 - r' ! 1])"

text \<open>
  A record \<open>x, y, w, h, score\<close> that passes every test of line 55:
  \<open>x \<ge> 0\<close>, \<open>y \<ge> 0\<close>, \<open>w > 0\<close>, \<open>h > 0\<close>, \<open>0 \<le> score \<le> 1\<close>.
\<close>

definition accepted :: "real list \<Rightarrow> bool" where
  "accepted l \<longleftrightarrow>
     length l = 5 \<and> 0 \<le> l ! 0 \<and> 0 \<le> l ! 1 \<and> 0 < l ! 2 \<and> 0 < l ! 3 \<and> 0 \<le> l ! 4 \<and> l ! 4 \<le> 1"

text \<open>
  Greedy selection from a list in order of preference: take the head, drop from the
  rest what the head overlaps (\<open>ov\<close>), go on with what is left.
\<close>

fun greedy :: "('a \<Rightarrow> 'a \<Rightarrow> bool) \<Rightarrow> 'a list \<Rightarrow> 'a list" where
  "greedy ov [] = []"
| "greedy ov (k # ks) = k # greedy ov (filter (\<lambda>i. \<not> ov k i) ks)"

text \<open>
  The records of the concrete scenario (\<open>x, y, w, h, score\<close>), the same boxes in
  corner form, and three boxes in corner form of which the first two have the same
  score and none overlaps another.
\<close>

definition scenario :: "real list list" where
  "scenario = [[0, 0, 10, 10, 9 / 10], [1, 1, 10, 10, 4 / 5], [50, 50, 10, 10, 19 / 20]]"

definition scenario_boxes :: "real list list" where
  "scenario_boxes = [[0, 0, 10, 10, 9 / 10], [1, 1, 11, 11, 4 / 5], [50, 50, 60, 60, 19 / 20]]"

definition tied_boxes :: "real list list" where
  "tied_boxes = [[0, 0, 10, 10, 1 / 2], [20, 20, 30, 30, 1 / 2], [40, 40, 50, 50, 9 / 10]]"

section \<open>\<open>get_iou\<close>\<close>

lemma get_iou_unfold:
  "get_iou b1 b2 =
     (if length b1 < 4 \<or> length b2 < 4 then Inl IndexError
      else if inter_width b1 b2 < 0 \<or> inter_height b1 b2 < 0 then Inr 0
      else if area b1 + area b2 - inter_width b1 b2 * inter_height b1 b2 + 1 / 100000 = 0
        then Inl ZeroDivisionError
      else Inr (inter_width b1 b2 * inter_height b1 b2 /
                (area b1 + area b2 - inter_width b1 b2 * inter_height b1 b2 + 1 / 100000)))"
  by (simp add: get_iou_def Let_def inter_width_def inter_height_def area_def)

lemma inter_le_area1:
  assumes "0 \<le> inter_width b1 b2" and "0 \<le> inter_height b1 b2"
  shows "inter_width b1 b2 * inter_height b1 b2 \<le> area b1"
proof -
  have "inter_width b1 b2 \<le> b1 ! 2 - b1 ! 0" and "inter_height b1 b2 \<le> b1 ! 3 - b1 ! 1"
    by (simp_all add: inter_width_def inter_height_def)
  then show ?thesis
    unfolding area_def using assms by (intro mult_mono) simp_all
qed

lemma inter_le_area2:
  assumes "0 \<le> inter_width b1 b2" and "0 \<le> inter_height b1 b2"
  shows "inter_width b1 b2 * inter_height b1 b2 \<le> area b2"
proof -
  have "inter_width b1 b2 \<le> b2 ! 2 - b2 ! 0" and "inter_height b1 b2 \<le> b2 ! 3 - b2 ! 1"
    by (simp_all add: inter_width_def inter_height_def)
  then show ?thesis
    unfolding area_def using assms by (intro mult_mono) simp_all
qed

lemma union_nonneg:
  assumes "0 \<le> inter_width b1 b2" and "0 \<le> inter_height b1 b2"
  shows "0 \<le> area b1 + area b2 - inter_width b1 b2 * inter_height b1 b2"
proof -
  have "0 \<le> inter_width b1 b2 * inter_height b1 b2"
    using assms by simp
  with inter_le_area1 [OF assms] inter_le_area2 [OF assms] show ?thesis
    by linarith
qed

text \<open>
  C6. When the width or the height of the intersection is negative, \<open>get_iou\<close> returns
  \<open>0.0\<close>: the early return of line 126, before any area or division is computed.
\<close>

theorem get_iou_disjoint:
  assumes "4 \<le> length b1" and "4 \<le> length b2"
    and "inter_width b1 b2 < 0 \<or> inter_height b1 b2 < 0"
  shows "get_iou b1 b2 = Inr 0"
  using assms by (simp add: get_iou_unfold)

theorem get_iou_disjoint_witness:
  "inter_width [0, 0, 10, 10, 9 / 10] [20, 20, 30, 30, 4 / 5] < 0
   \<and> get_iou [0, 0, 10, 10, 9 / 10] [20, 20, 30, 30, 4 / 5] = Inr 0"
  using get_iou_disjoint [of "[0, 0, 10, 10, 9 / 10]" "[20, 20, 30, 30, 4 / 5]"]
  by (simp add: inter_width_def)

text \<open>
  C7. When neither is negative, \<open>get_iou\<close> returns
  \<open>area_intersect / (area_b1 + area_b2 - area_intersect + 1e-5)\<close>, and the
  denominator is at least \<open>1e-5\<close>: the division is defined, also when the union is
  zero (as for a box without area compared with itself).
\<close>

theorem get_iou_epsilon:
  assumes "4 \<le> length b1" and "4 \<le> length b2"
    and "0 \<le> inter_width b1 b2" and "0 \<le> inter_height b1 b2"
  shows "1 / 100000 \<le> area b1 + area b2 - inter_width b1 b2 * inter_height b1 b2 + 1 / 100000
    \<and> get_iou b1 b2 =
        Inr (inter_width b1 b2 * inter_height b1 b2 /
             (area b1 + area b2 - inter_width b1 b2 * inter_height b1 b2 + 1 / 100000))"
  using assms union_nonneg [OF assms(3,4)] by (simp add: get_iou_unfold)

theorem get_iou_epsilon_witness:
  "area [3, 4, 3, 4, 1 / 2] + area [3, 4, 3, 4, 1 / 2]
     - inter_width [3, 4, 3, 4, 1 / 2] [3, 4, 3, 4, 1 / 2] * inter_height [3, 4, 3, 4, 1 / 2] [3, 4, 3, 4, 1 / 2] = 0
   \<and> get_iou [3, 4, 3, 4, 1 / 2] [3, 4, 3, 4, 1 / 2] = Inr (0 / (0 + 1 / 100000))"
  using get_iou_epsilon [of "[3, 4, 3, 4, 1 / 2]" "[3, 4, 3, 4, 1 / 2]"]
  by (simp add: inter_width_def inter_height_def area_def)

text \<open>
Two overlapping boxes: intersection 81, union 119.
\<close>

lemma get_iou_example:
  "get_iou [0, 0, 10, 10, 9 / 10] [1, 1, 11, 11, 4 / 5] = Inr (81 / (119 + 1 / 100000))"
  by (simp add: get_iou_def)

text \<open>
  On rows with four entries or more \<open>get_iou\<close> raises nothing, and the order of its
  arguments does not matter.
\<close>

lemma get_iou_total:
  assumes "4 \<le> length b1" and "4 \<le> length b2"
  shows "get_iou b1 b2 = Inr (iou b1 b2)"
proof (cases "inter_width b1 b2 < 0 \<or> inter_height b1 b2 < 0")
  case True
  with assms show ?thesis by (simp add: iou_def get_iou_unfold)
next
  case False
  then have "0 \<le> inter_width b1 b2" and "0 \<le> inter_height b1 b2" by simp_all
  from union_nonneg [OF this] assms show ?thesis
    by (simp add: iou_def get_iou_unfold)
qed

lemma get_iou_commute: "get_iou b1 b2 = get_iou b2 b1"
proof -
  have "inter_width b1 b2 = inter_width b2 b1" and "inter_height b1 b2 = inter_height b2 b1"
    by (simp_all add: inter_width_def inter_height_def max.commute min.commute)
  then show ?thesis
    by (simp add: get_iou_unfold add.commute disj_commute)
qed

lemma iou_commute: "iou b1 b2 = iou b2 b1"
  by (simp add: iou_def get_iou_commute)

lemma get_ious_total:
  assumes "4 \<le> length best" and "\<forall>b\<in>set bs. 4 \<le> length b"
  shows "get_ious best bs = Inr (map (iou best) bs)"
  using assms(2) by (induction bs) (simp_all add: get_iou_total [OF assms(1)])

section \<open>The loop of \<open>compute_nms\<close> is a greedy selection\<close>

text \<open>
  Deleting the positions that \<open>np.where\<close> reports is filtering: one round of the loop
  keeps, of the indices before the last, those whose box does not overlap the accepted
  box by more than the threshold.
\<close>

lemma np_delete_nths: "np_delete arr ps = nths arr (- set ps)"
  by (simp add: np_delete_def nths_def case_prod_unfold)

lemma nths_restrict: "nths xs A = nths xs (A \<inter> {..<length xs})"
proof -
  have "filter (\<lambda>p. snd p \<in> A) (zip xs [0..<length xs])
      = filter (\<lambda>p. snd p \<in> A \<inter> {..<length xs}) (zip xs [0..<length xs])"
    by (rule filter_cong) (auto dest: set_zip_rightD)
  then show ?thesis by (simp add: nths_def)
qed

lemma np_delete_where:
  "np_delete arr (np_where (map P arr)) = filter (\<lambda>x. \<not> P x) arr"
proof -
  have "np_delete arr (np_where (map P arr)) = nths arr (- {j. j < length arr \<and> P (arr ! j)})"
    by (simp add: np_delete_nths np_where_def cong: conj_cong)
  also have "\<dots> = nths arr ((- {j. j < length arr \<and> P (arr ! j)}) \<inter> {..<length arr})"
    by (rule nths_restrict)
  also have "(- {j. j < length arr \<and> P (arr ! j)}) \<inter> {..<length arr}
           = {j. j < length arr \<and> \<not> P (arr ! j)}"
    by auto
  also have "nths arr \<dots> = filter (\<lambda>x. \<not> P x) arr"
    by (simp add: filter_eq_nths)
  finally show ?thesis .
qed

lemma remaining_eq:
  assumes "\<forall>b\<in>set sd. 4 \<le> length b" and "idxs \<noteq> []" and "\<forall>i\<in>set idxs. i < length sd"
  shows "remaining sd t idxs =
           Inr (filter (\<lambda>i. \<not> iou (sd ! last idxs) (sd ! i) > t) (butlast idxs))"
proof -
  have best: "4 \<le> length (sd ! last idxs)"
    using assms by simp
  have rest: "\<forall>b\<in>set (map (\<lambda>i. sd ! i) (butlast idxs)). 4 \<le> length b"
    using assms(1,3) by (auto dest: in_set_butlastD)
  have "map (\<lambda>v. v > t) (map (iou (sd ! last idxs)) (map (\<lambda>i. sd ! i) (butlast idxs)))
      = map (\<lambda>i. iou (sd ! last idxs) (sd ! i) > t) (butlast idxs)"
    by simp
  then show ?thesis
    using assms(2) np_delete_last [of idxs]
    by (simp add: remaining_def get_ious_total [OF best rest] np_delete_where del: map_map)
qed

text \<open>
  A box leaves the index array in a round exactly when its overlap with the accepted box
  is greater than the threshold, and a higher threshold keeps whatever a lower one keeps.
\<close>

lemma remaining_keeps_iff:
  assumes "\<forall>b\<in>set sd. 4 \<le> length b" and "idxs \<noteq> []" and "\<forall>i\<in>set idxs. i < length sd"
    and "i \<in> set (butlast idxs)"
  shows "\<exists>r v. remaining sd t idxs = Inr r \<and> get_iou (sd ! last idxs) (sd ! i) = Inr v
           \<and> (i \<in> set r \<longleftrightarrow> \<not> v > t)"
proof -
  have "i \<in> set idxs"
    using assms(4) by (rule in_set_butlastD)
  then have "4 \<le> length (sd ! i)" and "4 \<le> length (sd ! last idxs)"
    using assms(1,2,3) by simp_all
  then have "get_iou (sd ! last idxs) (sd ! i) = Inr (iou (sd ! last idxs) (sd ! i))"
    by (simp add: get_iou_total)
  with remaining_eq [OF assms(1,2,3), of t] assms(4) show ?thesis
    by simp
qed

lemma remaining_mono:
  assumes "\<forall>b\<in>set sd. 4 \<le> length b" and "idxs \<noteq> []" and "\<forall>i\<in>set idxs. i < length sd"
    and "t1 \<le> t2"
  shows "\<exists>r1 r2. remaining sd t1 idxs = Inr r1 \<and> remaining sd t2 idxs = Inr r2
           \<and> r1 = filter (\<lambda>i. i \<in> set r1) r2"
proof -
  let ?P1 = "\<lambda>i. \<not> iou (sd ! last idxs) (sd ! i) > t1"
  let ?P2 = "\<lambda>i. \<not> iou (sd ! last idxs) (sd ! i) > t2"
  have "filter (\<lambda>i. i \<in> set (filter ?P1 (butlast idxs))) (filter ?P2 (butlast idxs))
      = filter ?P1 (butlast idxs)"
    using assms(4) by (auto intro!: filter_cong)
  then show ?thesis
    using remaining_eq [OF assms(1,2,3)] by simp
qed

text \<open>
  The loop appends to \<open>res\<close> the greedy selection from the remaining indices, taken
  from the last one down.
\<close>

lemma nms_loop_greedy:
  assumes "\<forall>b\<in>set sd. 4 \<le> length b" and "\<forall>i\<in>set idxs. i < length sd"
  shows "nms_loop sd t idxs res =
           Inr (res @ greedy (\<lambda>k i. iou (sd ! k) (sd ! i) > t) (rev idxs))"
  using assms
proof (induction sd t idxs res rule: nms_loop.induct)
  case (1 sd t idxs res)
  note wf = \<open>\<forall>b\<in>set sd. 4 \<le> length b\<close> and inb = \<open>\<forall>i\<in>set idxs. i < length sd\<close>
  show ?case
  proof (cases "idxs = []")
    case True
    then show ?thesis by (subst nms_loop.simps) simp
  next
    case False
    let ?r = "filter (\<lambda>i. \<not> iou (sd ! last idxs) (sd ! i) > t) (butlast idxs)"
    have rem: "remaining sd t idxs = Inr ?r"
      using remaining_eq [OF wf False inb] .
    have sub: "\<forall>i\<in>set ?r. i < length sd"
      using inb by (auto dest: in_set_butlastD)
    have IH: "nms_loop sd t ?r (res @ [idxs ! (length idxs - 1)]) =
           Inr ((res @ [idxs ! (length idxs - 1)]) @ greedy (\<lambda>k i. iou (sd ! k) (sd ! i) > t) (rev ?r))"
      using "1.IH" [OF _ rem wf sub] False by simp
    have lst: "idxs ! (length idxs - 1) = last idxs"
      using False by (simp add: last_conv_nth)
    from False have "rev idxs = rev (butlast idxs @ [last idxs])"
      by simp
    then have "rev idxs = last idxs # rev (butlast idxs)"
      by (simp only: rev_append rev.simps append.simps)
    then have "greedy (\<lambda>k i. iou (sd ! k) (sd ! i) > t) (rev idxs)
             = greedy (\<lambda>k i. iou (sd ! k) (sd ! i) > t) (last idxs # rev (butlast idxs))"
      by (rule arg_cong)
    then have "greedy (\<lambda>k i. iou (sd ! k) (sd ! i) > t) (rev idxs)
             = last idxs # greedy (\<lambda>k i. iou (sd ! k) (sd ! i) > t) (rev ?r)"
      by (simp add: rev_filter)
    with IH rem lst False show ?thesis
      by (subst nms_loop.simps) simp
  qed
qed

lemma greedy_map:
  "map f (greedy (\<lambda>k i. ov (f k) (f i)) ks) = greedy ov (map f ks)"
proof (induction "\<lambda>k i. ov (f k) (f i)" ks rule: greedy.induct)
  case 1
  then show ?case by simp
next
  case (2 k ks)
  then show ?case by (simp add: filter_map comp_def)
qed



subsection \<open>Greedy selection\<close>

lemma greedy_subset: "set (greedy ov ks) \<subseteq> set ks"
  by (induction ov ks rule: greedy.induct) auto

lemma greedy_mset: "mset (greedy ov ks) \<subseteq># mset ks"
proof (induction ov ks rule: greedy.induct)
  case (1 ov)
  then show ?case by simp
next
  case (2 ov k ks)
  have "mset (filter (\<lambda>i. \<not> ov k i) ks) \<subseteq># mset ks"
    by simp
  with 2 have "mset (greedy ov (filter (\<lambda>i. \<not> ov k i) ks)) \<subseteq># mset ks"
    by (rule subset_mset.order_trans)
  then show ?case by simp
qed

lemma greedy_subseq: "subseq (greedy ov ks) ks"
proof (induction ov ks rule: greedy.induct)
  case (1 ov)
  then show ?case by simp
next
  case (2 ov k ks)
  have "subseq (filter (\<lambda>i. \<not> ov k i) ks) ks"
    by (rule subseq_filter_left)
  with "2.IH" have "subseq (greedy ov (filter (\<lambda>i. \<not> ov k i) ks)) ks"
    by (rule subseq_order.trans)
  then show ?case by simp
qed

lemma greedy_length_le: "length (greedy ov ks) \<le> length ks"
  using size_mset_mono [OF greedy_mset [of ov ks]] by simp


lemma greedy_nonempty: "ks \<noteq> [] \<Longrightarrow> greedy ov ks \<noteq> []"
  by (cases ks) simp_all

lemma greedy_sorted_wrt: "sorted_wrt P ks \<Longrightarrow> sorted_wrt P (greedy ov ks)"
proof (induction ov ks rule: greedy.induct)
  case (1 ov)
  then show ?case by simp
next
  case (2 ov k ks)
  from "2.prems" have a: "\<forall>i\<in>set ks. P k i" and b: "sorted_wrt P ks"
    by simp_all
  from b have "sorted_wrt P (filter (\<lambda>i. \<not> ov k i) ks)"
    by (rule sorted_wrt_filter)
  then have c: "sorted_wrt P (greedy ov (filter (\<lambda>i. \<not> ov k i) ks))"
    by (rule "2.IH")
  have "set (greedy ov (filter (\<lambda>i. \<not> ov k i) ks)) \<subseteq> set ks"
    using greedy_subset [of ov "filter (\<lambda>i. \<not> ov k i) ks"] by auto
  with a have d: "\<forall>i\<in>set (greedy ov (filter (\<lambda>i. \<not> ov k i) ks)). P k i"
    by blast
  from c d show ?case by simp
qed

lemma greedy_pairwise: "sorted_wrt (\<lambda>a b. \<not> ov a b) (greedy ov ks)"
proof (induction ov ks rule: greedy.induct)
  case (1 ov)
  then show ?case by simp
next
  case (2 ov k ks)
  have "\<forall>i\<in>set (greedy ov (filter (\<lambda>i. \<not> ov k i) ks)). \<not> ov k i"
  proof
    fix i
    assume "i \<in> set (greedy ov (filter (\<lambda>i. \<not> ov k i) ks))"
    with greedy_subset [of ov "filter (\<lambda>i. \<not> ov k i) ks"]
    have "i \<in> set (filter (\<lambda>i. \<not> ov k i) ks)"
      by (rule subsetD)
    then show "\<not> ov k i" by simp
  qed
  with "2.IH" show ?case by (simp only: greedy.simps sorted_wrt.simps simp_thms)
qed

lemma greedy_id: "sorted_wrt (\<lambda>a b. \<not> ov a b) ks \<Longrightarrow> greedy ov ks = ks"
proof (induction ov ks rule: greedy.induct)
  case (1 ov)
  then show ?case by simp
next
  case (2 ov k ks)
  from "2.prems" have "filter (\<lambda>i. \<not> ov k i) ks = ks"
    by (auto intro: filter_True)
  with 2 show ?case by simp
qed

lemma greedy_removed:
  "x \<in> set ks \<Longrightarrow> x \<notin> set (greedy ov ks) \<Longrightarrow> \<exists>a\<in>set (greedy ov ks). ov a x"
proof (induction ov ks rule: greedy.induct)
  case (1 ov)
  then show ?case by simp
next
  case (2 ov k ks)
  let ?F = "filter (\<lambda>i. \<not> ov k i) ks"
  from "2.prems" have x: "x \<in> set ks" "x \<noteq> k" "x \<notin> set (greedy ov ?F)"
    by auto
  show ?case
  proof (cases "ov k x")
    case True
    then show ?thesis by simp
  next
    case False
    with x(1) have "x \<in> set ?F" by simp
    from "2.IH" [OF this x(3)] show ?thesis by auto
  qed
qed

text \<open>
  With at most three candidates, overlapping less never selects fewer: the head is
  selected in any case, and of two candidates left both are selected at the higher
  threshold whenever both are at the lower one.
\<close>

lemma greedy_mono_filtered:
  assumes "length F \<le> 2" and "\<And>a b. ov2 a b \<Longrightarrow> ov1 a b"
  shows "length (greedy ov1 (filter Q F)) \<le> length (greedy ov2 F)"
proof (cases F)
  case Nil
  then show ?thesis by simp
next
  case (Cons x xs)
  note F = this
  show ?thesis
  proof (cases xs)
    case Nil
    with F show ?thesis by simp
  next
    case (Cons y ys)
    with F assms(1) have xy: "F = [x, y]" by simp
    show ?thesis
    proof (cases "Q x \<and> Q y")
      case True
      with xy assms(2) show ?thesis by auto
    next
      case False
      then have "length (filter Q F) \<le> 1"
        using xy by auto
      with greedy_length_le [of ov1 "filter Q F"]
      have "length (greedy ov1 (filter Q F)) \<le> 1" by linarith
      moreover have "1 \<le> length (greedy ov2 F)"
        using xy by simp
      ultimately show ?thesis by linarith
    qed
  qed
qed

lemma greedy_mono3:
  assumes "length ks \<le> 3" and "\<And>a b. ov2 a b \<Longrightarrow> ov1 a b"
  shows "length (greedy ov1 ks) \<le> length (greedy ov2 ks)"
proof (cases ks)
  case Nil
  then show ?thesis by simp
next
  case (Cons k ks')
  have "filter (\<lambda>i. \<not> ov1 k i) ks' = filter (\<lambda>i. \<not> ov1 k i) (filter (\<lambda>i. \<not> ov2 k i) ks')"
    using assms(2) by (auto intro: filter_cong)
  moreover have "length (filter (\<lambda>i. \<not> ov2 k i) ks') \<le> 2"
  proof -
    have "length ks' \<le> 2" using assms(1) Cons by simp
    with length_filter_le [of "\<lambda>i. \<not> ov2 k i" ks'] show ?thesis by linarith
  qed
  ultimately show ?thesis
    using Cons greedy_mono_filtered [where F = "filter (\<lambda>i. \<not> ov2 k i) ks'" and Q = "\<lambda>i. \<not> ov1 k i" and ?ov1.0 = ov1 and ?ov2.0 = ov2, OF _ assms(2)]
    by simp
qed

subsection \<open>The result of \<open>compute_nms\<close>\<close>

lemma to_wh_length [simp]: "length (to_wh r) = length r"
  by (simp add: to_wh_def Let_def)

lemma sub_cols:
  assumes "\<forall>r\<in>set rows. 4 \<le> length r"
  shows "(case sub_col 2 0 rows of Inl e \<Rightarrow> Inl e | Inr fr \<Rightarrow> sub_col 3 1 fr) = Inr (map to_wh rows)"
proof -
  let ?fr = "map (\<lambda>r. r[2 := r ! 2 - r ! 0]) rows"
  have "\<not> list_ex (\<lambda>r. length r \<le> 2 \<or> length r \<le> 0) rows"
    using assms by (fastforce simp: list_ex_iff)
  then have 1: "sub_col 2 0 rows = Inr ?fr"
    unfolding sub_col_def by (rule if_not_P)
  have "\<not> list_ex (\<lambda>r. length r \<le> 3 \<or> length r \<le> 1) ?fr"
    using assms by (fastforce simp: list_ex_iff)
  then have 2: "sub_col 3 1 ?fr = Inr (map (\<lambda>r. r[3 := r ! 3 - r ! 1]) ?fr)"
    unfolding sub_col_def by (rule if_not_P)
  have 3: "map (\<lambda>r. r[3 := r ! 3 - r ! 1]) ?fr = map to_wh rows"
    by (simp add: to_wh_def Let_def)
  show ?thesis
    unfolding 1 sum.case 2 3 ..
qed

lemma compute_nms_unfold:
  assumes "data self = Some d" and "d \<noteq> []"
    and "sortedby_confidence d = Inr sd"
    and "nms_loop sd t [0..<length sd] [] = Inr res"
    and "(case sub_col 2 0 (map (\<lambda>i. sd ! i) res) of Inl e \<Rightarrow> Inl e | Inr fr \<Rightarrow> sub_col 3 1 fr) = Inr fr'"
  shows "compute_nms t self = Inr (None, self\<lparr>final_res := Some fr'\<rparr>)"
  using assms by (auto simp: compute_nms_def split: sum.splits)

text \<open>
  On a non-empty array whose rows have four entries or more, \<open>compute_nms\<close> raises
  nothing, and \<open>final_res\<close> is the greedy selection from the sorted array read from
  its end, each row converted by lines 221 and 222.
\<close>

lemma suppress_greedy:
  assumes "X \<noteq> []" and "\<forall>b\<in>set X. 4 \<le> length b"
  shows "suppress X t = Inr (map to_wh (greedy (\<lambda>a b. iou a b > t) (rev (sort_key last X))))"
proof -
  let ?sd = "sort_key last X"
  let ?res = "greedy (\<lambda>k i. iou (?sd ! k) (?sd ! i) > t) (rev [0..<length ?sd])"
  have srt: "sortedby_confidence X = Inr ?sd"
    using assms(2) by (fastforce simp: sortedby_confidence_def list_ex_iff)
  have wf: "\<forall>b\<in>set ?sd. 4 \<le> length b"
    using assms(2) by simp
  have "\<forall>i\<in>set [0..<length ?sd]. i < length ?sd"
    by (simp del: length_sort)
  from nms_loop_greedy [OF wf this, of t "[]"]
  have loop: "nms_loop ?sd t [0..<length ?sd] [] = Inr ?res"
    by (simp only: append_Nil)
  have "map (\<lambda>i. ?sd ! i) ?res = greedy (\<lambda>a b. iou a b > t) (map (\<lambda>i. ?sd ! i) (rev [0..<length ?sd]))"
    by (rule greedy_map)
  also have "map (\<lambda>i. ?sd ! i) (rev [0..<length ?sd]) = rev ?sd"
    by (simp only: rev_map [symmetric] map_nth)
  finally have acc: "map (\<lambda>i. ?sd ! i) ?res = greedy (\<lambda>a b. iou a b > t) (rev ?sd)" .
  have "\<forall>r\<in>set (greedy (\<lambda>a b. iou a b > t) (rev ?sd)). 4 \<le> length r"
    using wf greedy_subset [of "\<lambda>a b. iou a b > t" "rev ?sd"] by auto
  from sub_cols [OF this]
  have cols: "(case sub_col 2 0 (map (\<lambda>i. ?sd ! i) ?res) of Inl e \<Rightarrow> Inl e | Inr fr \<Rightarrow> sub_col 3 1 fr)
                = Inr (map to_wh (greedy (\<lambda>a b. iou a b > t) (rev ?sd)))"
    by (simp only: acc)
  have "data (init\<lparr>data := Some X\<rparr>) = Some X"
    by simp
  from compute_nms_unfold [OF this assms(1) srt loop cols]
  show ?thesis
    by (simp add: suppress_def result_of_def)
qed

lemma suppress_example:
  "suppress [[0, 0, 10, 10, 9 / 10], [1, 1, 11, 11, 4 / 5], [50, 50, 60, 60, 19 / 20]] (1 / 2)
     = Inr [[50, 50, 10, 10, 19 / 20], [0, 0, 10, 10, 9 / 10]]"
  by code_simp

section \<open>Order of the result\<close>

lemma length5:
  assumes "length l = 5"
  obtains x y w h s where "l = [x, y, w, h, s]"
proof -
  from assms obtain x l1 where 1: "l = x # l1" "length l1 = 4" by (cases l) auto
  then obtain y l2 where 2: "l1 = y # l2" "length l2 = 3" by (cases l1) auto
  then obtain w l3 where 3: "l2 = w # l3" "length l3 = 2" by (cases l2) auto
  then obtain h l4 where 4: "l3 = h # l4" "length l4 = 1" by (cases l3) auto
  then obtain s where 5: "l4 = [s]" by (cases l4) auto
  from 1 2 3 4 5 that show ?thesis by simp
qed

lemma last_to_wh: "length l = 5 \<Longrightarrow> last (to_wh l) = last l"
  by (erule length5) (simp add: to_wh_def Let_def)



section \<open>The threshold\<close>

text \<open>
  A box of the input that is not in the result overlaps a box of the result by more
  than the threshold.
\<close>

lemma removed_only_above_threshold:
  assumes "X \<noteq> []" and "\<forall>b\<in>set X. 4 \<le> length b"
  shows "\<exists>A. suppress X t = Inr (map to_wh A) \<and> set A \<subseteq> set X
           \<and> (\<forall>b\<in>set X. b \<notin> set A \<longrightarrow> (\<exists>a\<in>set A. \<exists>v. get_iou a b = Inr v \<and> v > t))"
proof -
  let ?A = "greedy (\<lambda>a b. iou a b > t) (rev (sort_key last X))"
  have sub: "set ?A \<subseteq> set X"
    using greedy_subset [of "\<lambda>a b. iou a b > t" "rev (sort_key last X)"] by simp
  have "\<exists>a\<in>set ?A. \<exists>v. get_iou a b = Inr v \<and> v > t" if b: "b \<in> set X" "b \<notin> set ?A" for b
  proof -
    from b(1) have "b \<in> set (rev (sort_key last X))" by simp
    from greedy_removed [OF this b(2)] obtain a where a: "a \<in> set ?A" "iou a b > t"
      by blast
    from a(1) sub b(1) assms(2) have "get_iou a b = Inr (iou a b)"
      by (intro get_iou_total) auto
    with a show ?thesis by blast
  qed
  with sub suppress_greedy [OF assms, of t] show ?thesis
    by (intro exI [of _ ?A]) blast
qed

text \<open>
  C2. The comparison of line 214 is strict. Two boxes whose \<open>get_iou\<close> is the threshold
  itself both survive: \<open>final_res\<close> holds the two of them, the higher score first
  (the second of the input first when the scores are equal).
\<close>

theorem threshold_is_strict:
  assumes "length a = 5" and "length b = 5" and "get_iou a b = Inr t"
  shows "suppress [a, b] t =
           Inr (if last a \<le> last b then [to_wh b, to_wh a] else [to_wh a, to_wh b])"
proof -
  have four: "\<forall>x\<in>set [a, b]. 4 \<le> length x"
    using assms(1,2) by simp
  have "iou a b = t"
    using assms(3) by (simp add: iou_def)
  then have no: "\<not> iou a b > t" "\<not> iou b a > t"
    by (simp_all add: iou_commute [of b a])
  have "suppress [a, b] t = Inr (map to_wh (greedy (\<lambda>a b. iou a b > t) (rev (sort_key last [a, b]))))"
    using four by (intro suppress_greedy) simp_all
  also have "greedy (\<lambda>a b. iou a b > t) (rev (sort_key last [a, b]))
           = (if last a \<le> last b then [b, a] else [a, b])"
    using no by simp
  finally show ?thesis
    by (simp add: if_distrib [of "map to_wh"])
qed

theorem threshold_is_strict_witness:
  "length [0, 0, 199999 / 100000, 1, 9 / 10 :: real] = 5 \<and> length [0, 0, 1, 1, 4 / 5 :: real] = 5
   \<and> get_iou [0, 0, 199999 / 100000, 1, 9 / 10] [0, 0, 1, 1, 4 / 5] = Inr (1 / 2)
   \<and> suppress [[0, 0, 199999 / 100000, 1, 9 / 10], [0, 0, 1, 1, 4 / 5]] (1 / 2)
       = Inr [[0, 0, 199999 / 100000, 1, 9 / 10], [0, 0, 1, 1, 4 / 5]]"
proof -
  let ?a = "[0, 0, 199999 / 100000, 1, 9 / 10 :: real]"
  let ?b = "[0, 0, 1, 1, 4 / 5 :: real]"
  have 1: "length ?a = 5" and 2: "length ?b = 5" by simp_all
  have 3: "get_iou ?a ?b = Inr (1 / 2)" by (simp add: get_iou_def)
  from threshold_is_strict [OF 1 2 3] have "suppress [?a, ?b] (1 / 2) = Inr [?a, ?b]"
    by (simp add: to_wh_def)
  with 1 2 3 show ?thesis by (intro conjI)
qed

text \<open>
The same two boxes with a threshold just below their overlap: the second is removed.
\<close>

lemma just_above_threshold:
  "suppress [[0, 0, 199999 / 100000, 1, 9 / 10], [0, 0, 1, 1, 4 / 5]] (49999 / 100000)
     = Inr [[0, 0, 199999 / 100000, 1, 9 / 10]]"
  by code_simp

text \<open>
  C4, for at most three boxes. For a collection of at most three boxes and thresholds \<open>t1 < t2\<close>,
  \<open>compute_nms\<close> returns at \<open>t1\<close> no more boxes than at \<open>t2\<close>.
\<close>

theorem monotone_up_to_three:
  assumes "length X \<le> 3" and "\<forall>b\<in>set X. length b = 5" and "t1 < t2"
  shows "\<exists>R1 R2. suppress X t1 = Inr R1 \<and> suppress X t2 = Inr R2 \<and> length R1 \<le> length R2"
proof (cases "X = []")
  case True
  then show ?thesis
    by (simp add: suppress_def result_of_def compute_nms_def init_def)
next
  case False
  have four: "\<forall>b\<in>set X. 4 \<le> length b"
    using assms(2) by simp
  let ?ks = "rev (sort_key last X)"
  have "length ?ks \<le> 3"
    using assms(1) by simp
  moreover have "\<And>a b. iou a b > t2 \<Longrightarrow> iou a b > t1"
    using assms(3) by simp
  ultimately have "length (greedy (\<lambda>a b. iou a b > t1) ?ks) \<le> length (greedy (\<lambda>a b. iou a b > t2) ?ks)"
    by (rule greedy_mono3)
  then show ?thesis
    using suppress_greedy [OF False four] by simp
qed

theorem monotone_up_to_three_witness:
  "length scenario_boxes \<le> 3 \<and> list_all (\<lambda>b. length b = 5) scenario_boxes \<and> (1 / 2 :: real) < 7 / 10
   \<and> (\<exists>R1 R2. suppress scenario_boxes (1 / 2) = Inr R1
          \<and> suppress scenario_boxes (7 / 10) = Inr R2
          \<and> length R1 \<le> length R2)"
proof -
  have 1: "length scenario_boxes \<le> 3"
    by (simp add: scenario_boxes_def)
  have 2: "\<forall>b\<in>set scenario_boxes. length b = 5"
    by (simp add: scenario_boxes_def)
  then have l2: "list_all (\<lambda>b. length b = 5) scenario_boxes"
    by (simp add: list_all_iff)
  have 3: "(1 / 2 :: real) < 7 / 10"
    by simp
  from 1 l2 3 monotone_up_to_three [OF 1 2 3] show ?thesis
    by (intro conjI)
qed

text \<open>
  C4 fails from four boxes on. Boxes A, B, C, D by descending score, B
  overlapping A by a third and C and D by six tenths, C and D overlapping A and each
  other by less than three tenths. At the threshold 0.3 A removes B, and A, C, D
  are returned; at 0.5 B stays and removes C and D, and A, B are returned.
\<close>

theorem four_boxes_not_monotone:
  "(3 / 10 :: real) < 1 / 2
   \<and> suppress [[0, 5, 10, 15, 9 / 10], [0, 0, 10, 10, 4 / 5], [0, 0, 6, 10, 7 / 10], [4, 0, 10, 10, 3 / 5]] (3 / 10)
     = Inr [[0, 5, 10, 10, 9 / 10], [0, 0, 6, 10, 7 / 10], [4, 0, 6, 10, 3 / 5]]
   \<and> suppress [[0, 5, 10, 15, 9 / 10], [0, 0, 10, 10, 4 / 5], [0, 0, 6, 10, 7 / 10], [4, 0, 10, 10, 3 / 5]] (1 / 2)
     = Inr [[0, 5, 10, 10, 9 / 10], [0, 0, 10, 10, 4 / 5]]
   \<and> \<not> length [[0, 5, 10, 10, 9 / 10], [0, 0, 6, 10, 7 / 10], [4, 0, 6, 10, 3 / 5 :: real]]
         \<le> length [[0, 5, 10, 10, 9 / 10], [0, 0, 10, 10, 4 / 5 :: real]]"
  by code_simp

section \<open>Ingestion\<close>

text \<open>
  An accepted record passes \<open>get_data\<close> unchanged but for the conversion to corners,
  and the two conversions undo each other.
\<close>

lemma clean_accepted: "accepted l \<Longrightarrow> clean l = l"
proof -
  assume a: "accepted l"
  then have "length l = 5" by (simp add: accepted_def)
  then obtain x y w h s where l: "l = [x, y, w, h, s]" by (rule length5)
  have "[0..<5] = [0, 1, 2, 3, 4::nat]"
    by (simp add: upt_rec)
  with a l show ?thesis
    by (simp add: clean_def accepted_def weird_def)
qed

lemma to_corners_ok: "4 \<le> length l \<Longrightarrow> to_corners l = Inr (corners l)"
  by (simp add: to_corners_def corners_def Let_def)

lemma corners_length [simp]: "length (corners l) = length l"
  by (simp add: corners_def Let_def)

lemma to_wh_corners: "4 \<le> length l \<Longrightarrow> to_wh (corners l) = l"
  by (simp add: to_wh_def corners_def Let_def list_eq_iff_nth_eq nth_list_update)

lemma corners_to_wh: "4 \<le> length l \<Longrightarrow> corners (to_wh l) = l"
  by (simp add: to_wh_def corners_def Let_def list_eq_iff_nth_eq nth_list_update)

lemma last_corners: "length l = 5 \<Longrightarrow> last (corners l) = last l"
  by (erule length5) (simp add: corners_def Let_def)

lemma read_lines_accepted:
  "\<forall>l\<in>set recs. accepted l \<Longrightarrow> read_lines recs acc = Inr (acc @ map corners recs)"
proof (induction recs arbitrary: acc)
  case Nil
  then show ?case by simp
next
  case (Cons l ls)
  then have "accepted l" by simp
  then have "clean l = l" and "4 \<le> length l"
    by (simp_all add: clean_accepted accepted_def)
  then have "to_corners (clean l) = Inr (corners l)"
    by (simp add: to_corners_ok)
  with Cons show ?case by simp
qed

lemma np_array_five: "\<forall>r\<in>set rows. length r = 5 \<Longrightarrow> np_array rows = Inr rows"
  by (cases rows) (simp_all add: np_array_def list_all_iff)

lemma get_data_accepted:
  assumes "\<forall>l\<in>set recs. accepted l"
  shows "get_data recs self = Inr (self\<lparr>data := Some (map corners recs)\<rparr>)"
proof -
  have "\<forall>r\<in>set (map corners recs). length r = 5"
    using assms by (simp add: accepted_def)
  then have "np_array (map corners recs) = Inr (map corners recs)"
    by (rule np_array_five)
  then show ?thesis
    using read_lines_accepted [OF assms, of "[]"] by (simp add: get_data_def)
qed

lemma run_accepted:
  assumes "\<forall>l\<in>set recs. accepted l"
  shows "run recs t = suppress (map corners recs) t"
  by (simp add: run_def suppress_def get_data_accepted [OF assms])

lemma run_greedy:
  assumes "\<forall>l\<in>set recs. accepted l" and "recs \<noteq> []"
  shows "run recs t =
           Inr (map to_wh (greedy (\<lambda>a b. iou a b > t) (rev (sort_key last (map corners recs)))))"
proof -
  have "\<forall>b\<in>set (map corners recs). 4 \<le> length b"
    using assms(1) by (simp add: accepted_def)
  moreover have "map corners recs \<noteq> []"
    using assms(2) by simp
  ultimately show ?thesis
    unfolding run_accepted [OF assms(1)] by (intro suppress_greedy)
qed

lemma run_empty: "run [] t = Inr []"
  by (simp add: run_def get_data_def np_array_def result_of_def compute_nms_def)

lemma get_data_empty: "get_data [] init = Inr (init\<lparr>data := Some []\<rparr>)"
  by (simp add: get_data_def np_array_def)

lemma run_example:
  "run [[0, 0, 10, 10, 9 / 10], [1, 1, 10, 10, 4 / 5], [50, 50, 10, 10, 19 / 20]] (1 / 2)
     = Inr [[50, 50, 10, 10, 19 / 20], [0, 0, 10, 10, 9 / 10]]"
  by code_simp



text \<open>
  C1. The line \<open>-1, 0, 10, 10, 0.5\<close> is not dropped by \<open>get_data\<close>: only its first
  field is. The four fields left are read as \<open>x = 0, y = 10, w = 10, h = 0.5\<close>, the
  row \<open>[0, 10, 10, 10.5]\<close> enters the data, and the run outputs a box made from it.
\<close>

theorem get_data_keeps_line_with_negative_x:
  "get_data [[-1, 0, 10, 10, 1 / 2]] init = Inr \<lparr>data = Some [[0, 10, 10, 21 / 2]], final_res = None\<rparr>
   \<and> run [[-1, 0, 10, 10, 1 / 2]] (1 / 2) = Inr [[0, 10, 10, 1 / 2]]"
  by code_simp

text \<open>
  The same line after a clean one: the rows of the data have five and four entries, and
  \<open>np.array\<close> refuses them.
\<close>

lemma mixed_file_raises:
  "run [[0, 0, 10, 10, 9 / 10], [-1, 0, 10, 10, 1 / 2]] (1 / 2) = Inl ValueError"
  by code_simp

section \<open>No data\<close>

text \<open>
  C9. On an array without boxes \<open>compute_nms\<close> raises nothing: it returns the empty
  list (and leaves the object, \<open>final_res\<close> included, as it was).
\<close>

theorem compute_nms_empty:
  "compute_nms iou_threshold (self\<lparr>data := Some []\<rparr>) = Inr (Some [], self\<lparr>data := Some []\<rparr>)
   \<and> suppress [] iou_threshold = Inr []"
  by (simp add: compute_nms_def suppress_def result_of_def)

section \<open>Suppressing the result again\<close>

text \<open>
  For an overlap relation that does not depend on the order of the two boxes, a list
  without overlapping pairs stays so when it is sorted or reversed; on such an array
  \<open>compute_nms\<close> returns every box.
\<close>

lemma sorted_wrt_insort_sym:
  assumes sym: "\<And>a b. P a b \<Longrightarrow> P b a"
  shows "sorted_wrt P (insort_key f x xs) \<longleftrightarrow> (\<forall>y\<in>set xs. P x y) \<and> sorted_wrt P xs"
proof (induction xs)
  case Nil
  then show ?case by simp
next
  case (Cons y ys)
  show ?case
  proof (cases "f x \<le> f y")
    case True
    then show ?thesis by simp
  next
    case False
    then have "sorted_wrt P (insort_key f x (y # ys))
        \<longleftrightarrow> (\<forall>z\<in>set (insort_key f x ys). P y z) \<and> sorted_wrt P (insort_key f x ys)"
      by simp
    also have "\<dots> \<longleftrightarrow> (P y x \<and> (\<forall>z\<in>set ys. P y z)) \<and> (\<forall>z\<in>set ys. P x z) \<and> sorted_wrt P ys"
      unfolding Cons.IH by (simp add: set_insort_key)
    also have "\<dots> \<longleftrightarrow> (\<forall>z\<in>set (y # ys). P x z) \<and> sorted_wrt P (y # ys)"
      using sym [of x y] sym [of y x] by auto
    finally show ?thesis .
  qed
qed

lemma sorted_wrt_sort_sym:
  assumes sym: "\<And>a b. P a b \<Longrightarrow> P b a"
  shows "sorted_wrt P (sort_key f xs) \<longleftrightarrow> sorted_wrt P xs"
  by (induction xs) (simp_all add: sorted_wrt_insort_sym [of P, OF sym])

lemma sorted_wrt_rev_sym:
  assumes sym: "\<And>a b. P a b \<Longrightarrow> P b a"
  shows "sorted_wrt P (rev xs) \<longleftrightarrow> sorted_wrt P xs"
proof -
  have "(\<lambda>x y. P y x) = P"
    using sym by (intro ext) blast
  then show ?thesis by (simp add: sorted_wrt_rev)
qed

lemma suppress_no_overlap:
  assumes "A \<noteq> []" and "\<forall>b\<in>set A. 4 \<le> length b"
    and "sorted_wrt (\<lambda>a b. \<not> iou a b > t) A"
  shows "suppress A t = Inr (map to_wh (rev (sort_key last A)))"
proof -
  have sym: "\<And>a b. \<not> iou a b > t \<Longrightarrow> \<not> iou b a > t"
    by (simp add: iou_commute)
  have "sorted_wrt (\<lambda>a b. \<not> iou a b > t) (sort_key last A)"
    using assms(3) sorted_wrt_sort_sym [of "\<lambda>a b. \<not> iou a b > t" last A, OF sym] by blast
  then have "sorted_wrt (\<lambda>a b. \<not> iou a b > t) (rev (sort_key last A))"
    using sorted_wrt_rev_sym [of "\<lambda>a b. \<not> iou a b > t" "sort_key last A", OF sym] by blast
  then have "greedy (\<lambda>a b. iou a b > t) (rev (sort_key last A)) = rev (sort_key last A)"
    by (rule greedy_id)
  with suppress_greedy [OF assms(1,2), of t] show ?thesis
    by (simp only:)
qed

lemma sort_key_rev_strict:
  assumes "sorted_wrt (\<lambda>a b. f a > f b) A"
  shows "sort_key f A = rev A"
proof (rule sort_key_inj_key_eq)
  show "mset A = mset (rev A)" by simp
  have "sorted_wrt (>) (map f A)"
    using assms by (simp add: sorted_wrt_map)
  then have "sorted_wrt (<) (rev (map f A))"
    by (simp add: sorted_wrt_rev)
  then have "sorted (rev (map f A)) \<and> distinct (rev (map f A))"
    by (simp only: strict_sorted_iff)
  then show "sorted (map f (rev A))" and "inj_on f (set A)"
    by (simp_all add: rev_map distinct_map)
qed

text \<open>
  C5, up to the order of equal scores. Let every record of the file be accepted, and
  let \<open>R\<close> be the output of the run. Read as a file, \<open>R\<close> is ingested as the array \<open>A\<close> of the accepted
  boxes, in which no box overlaps a later one by more than the threshold, and the run on
  \<open>R\<close> outputs the same records as \<open>R\<close>, each as often (in the same order when
  the scores of the file are pairwise different).
\<close>

theorem resuppression:
  assumes "\<forall>l\<in>set recs. accepted l"
  shows "\<exists>R A R'. run recs t = Inr R
           \<and> get_data R init = Inr (init\<lparr>data := Some A\<rparr>)
           \<and> (\<forall>i j. i < j \<longrightarrow> j < length A \<longrightarrow> (\<exists>v. get_iou (A ! i) (A ! j) = Inr v \<and> v \<le> t))
           \<and> run R t = Inr R'
           \<and> mset R' = mset R
           \<and> (distinct (map last recs) \<longrightarrow> R' = R)"
proof (cases "recs = []")
  case True
  have "\<forall>i j. i < j \<longrightarrow> j < length ([] :: real list list) \<longrightarrow>
          (\<exists>v. get_iou ([] ! i) ([] ! j) = Inr v \<and> v \<le> t)"
    by simp
  with True run_empty [of t] get_data_empty show ?thesis
    by (intro exI [of _ "[]"]) simp
next
  case False
  let ?X = "map corners recs"
  let ?S = "sort_key last ?X"
  let ?A = "greedy (\<lambda>a b. iou a b > t) (rev ?S)"
  let ?R = "map to_wh ?A"
  have run1: "run recs t = Inr ?R"
    using assms False by (rule run_greedy)
  have sub: "set ?A \<subseteq> set ?X"
    using greedy_subset [of "\<lambda>a b. iou a b > t" "rev ?S"] by simp
  have five: "\<forall>a\<in>set ?A. length a = 5"
    using sub assms by (auto simp: accepted_def)
  have four: "\<forall>a\<in>set ?A. 4 \<le> length a"
    using five by simp
  have accR: "\<forall>r\<in>set ?R. accepted r"
  proof
    fix r
    assume "r \<in> set ?R"
    then obtain a where a: "a \<in> set ?A" and r: "r = to_wh a" by auto
    from a sub obtain l where l: "l \<in> set recs" and al: "a = corners l" by auto
    from l assms have "accepted l" by simp
    then have "to_wh (corners l) = l" by (simp add: to_wh_corners accepted_def)
    with r al \<open>accepted l\<close> show "accepted r" by simp
  qed
  have cor: "map corners ?R = ?A"
    using four by (simp add: corners_to_wh map_idI)
  have ingest: "get_data ?R init = Inr (init\<lparr>data := Some ?A\<rparr>)"
    using get_data_accepted [OF accR, of init] by (simp only: cor)
  have pw: "sorted_wrt (\<lambda>a b. \<not> iou a b > t) ?A"
    by (rule greedy_pairwise)
  have pairs: "\<forall>i j. i < j \<longrightarrow> j < length ?A \<longrightarrow> (\<exists>v. get_iou (?A ! i) (?A ! j) = Inr v \<and> v \<le> t)"
  proof (intro allI impI)
    fix i j
    assume ij: "i < j" "j < length ?A"
    from pw ij have "\<not> iou (?A ! i) (?A ! j) > t"
      by (rule sorted_wrt_nth_less)
    moreover have "get_iou (?A ! i) (?A ! j) = Inr (iou (?A ! i) (?A ! j))"
      using four ij by (intro get_iou_total) simp_all
    ultimately show "\<exists>v. get_iou (?A ! i) (?A ! j) = Inr v \<and> v \<le> t"
      by simp
  qed
  have "length (rev ?S) = length recs"
    by simp
  with False have "rev ?S \<noteq> []"
    by (metis length_0_conv)
  then have ne: "?A \<noteq> []"
    by (rule greedy_nonempty)
  have "run ?R t = suppress (map corners ?R) t"
    using accR by (rule run_accepted)
  also have "\<dots> = suppress ?A t"
    by (simp only: cor)
  also have "\<dots> = Inr (map to_wh (rev (sort_key last ?A)))"
    using ne four pw by (rule suppress_no_overlap)
  finally have run2: "run ?R t = Inr (map to_wh (rev (sort_key last ?A)))" .
  have same: "mset (map to_wh (rev (sort_key last ?A))) = mset ?R"
    by simp
  have order: "map to_wh (rev (sort_key last ?A)) = ?R" if d: "distinct (map last recs)"
  proof -
    have "map last ?X = map last recs"
      using assms by (simp add: last_corners accepted_def)
    with d have "distinct (map last ?X)" by (simp only:)
    moreover have "mset (map last ?S) = mset (map last ?X)"
      by (simp only: mset_map mset_sort)
    ultimately have "distinct (map last ?S)"
      by (metis mset_eq_imp_distinct_iff)
    moreover have "sorted (map last ?S)"
      by (rule sorted_sort_key)
    ultimately have "sorted_wrt (<) (map last ?S)"
      by (simp add: strict_sorted_iff)
    then have "sorted_wrt (\<lambda>a b. last a > last b) (rev ?S)"
      by (simp add: sorted_wrt_rev sorted_wrt_map)
    then have "sorted_wrt (\<lambda>a b. last a > last b) ?A"
      by (rule greedy_sorted_wrt)
    then have "sort_key last ?A = rev ?A"
      by (rule sort_key_rev_strict)
    then show ?thesis by simp
  qed
  from order have order': "distinct (map last recs) \<longrightarrow> map to_wh (rev (sort_key last ?A)) = ?R"
    by (rule impI)
  show ?thesis
    by (intro exI [of _ ?R] exI [of _ ?A] exI [of _ "map to_wh (rev (sort_key last ?A))"] conjI)
       (rule run1 ingest pairs run2 same order')+
qed

theorem resuppression_witness:
  "list_all accepted scenario
   \<and> (\<exists>R A R'. run scenario (1 / 2) = Inr R
          \<and> get_data R init = Inr (init\<lparr>data := Some A\<rparr>)
          \<and> (\<forall>i j. i < j \<longrightarrow> j < length A \<longrightarrow> (\<exists>v. get_iou (A ! i) (A ! j) = Inr v \<and> v \<le> 1 / 2))
          \<and> run R (1 / 2) = Inr R'
          \<and> mset R' = mset R
          \<and> (distinct (map last scenario) \<longrightarrow> R' = R))"
proof -
  have h: "\<forall>l\<in>set scenario. accepted l"
    by (simp add: scenario_def accepted_def)
  then have h': "list_all accepted scenario"
    by (simp add: list_all_iff)
  from h' resuppression [OF h, of "1 / 2"] show ?thesis
    by (intro conjI)
qed

text \<open>
  C5 fails in the order of the result when scores are equal. Two boxes apart from each other with the
  score 0.5: the run outputs the second before the first, and the run on that output
  gives the first before the second.
\<close>

theorem resuppression_reverses_ties:
  "run [[0, 0, 10, 10, 1 / 2], [20, 20, 10, 10, 1 / 2]] (1 / 2)
     = Inr [[20, 20, 10, 10, 1 / 2], [0, 0, 10, 10, 1 / 2]]
   \<and> run [[20, 20, 10, 10, 1 / 2], [0, 0, 10, 10, 1 / 2]] (1 / 2)
     = Inr [[0, 0, 10, 10, 1 / 2], [20, 20, 10, 10, 1 / 2]]
   \<and> [[0, 0, 10, 10, 1 / 2], [20, 20, 10, 10, 1 / 2]] \<noteq> [[20, 20, 10, 10, 1 / 2], [0, 0, 10, 10, 1 / 2 :: real]]"
  by code_simp

section \<open>Equal scores\<close>

lemma stable_sort_unique:
  "(mset ys = mset d \<and> sorted (map f ys) \<and> (\<forall>k. filter (\<lambda>x. f x = k) ys = filter (\<lambda>x. f x = k) d))
     \<longleftrightarrow> ys = sort_key f d"
proof
  assume a: "mset ys = mset d \<and> sorted (map f ys) \<and> (\<forall>k. filter (\<lambda>x. f x = k) ys = filter (\<lambda>x. f x = k) d)"
  have "sort_key f d = ys"
  proof (rule properties_for_sort_key)
    show "mset ys = mset d" using a by simp
    show "sorted (map f ys)" using a by simp
    fix k
    have "filter (\<lambda>x. f x = f k) ys = filter (\<lambda>x. f x = f k) d"
      using a by blast
    then show "filter (\<lambda>x. f k = f x) ys = filter (\<lambda>x. f k = f x) d"
      by (simp only: eq_commute [of "f k"])
  qed
  then show "ys = sort_key f d" by simp
next
  assume "ys = sort_key f d"
  then show "mset ys = mset d \<and> sorted (map f ys) \<and> (\<forall>k. filter (\<lambda>x. f x = k) ys = filter (\<lambda>x. f x = k) d)"
    by (simp add: sort_key_stable)
qed

text \<open>
  C10. The order in which \<open>compute_nms\<close> treats boxes of equal score is fixed by the
  input. The sorted array is the only arrangement of the boxes that ascends in score
  and keeps boxes of one score in their input order; and of the surviving boxes of one
  score, the result lists a later box of the input before an earlier one.
\<close>

theorem ties_by_input_position:
  assumes "X \<noteq> []" and "\<forall>b\<in>set X. length b = 5"
  shows "\<exists>sd R. sortedby_confidence X = Inr sd
           \<and> (\<forall>ys. (mset ys = mset X \<and> sorted (map last ys)
                     \<and> (\<forall>k. filter (\<lambda>b. last b = k) ys = filter (\<lambda>b. last b = k) X))
                   \<longleftrightarrow> ys = sd)
           \<and> suppress X t = Inr R
           \<and> (\<forall>k. subseq (filter (\<lambda>r. last r = k) R) (map to_wh (rev (filter (\<lambda>b. last b = k) X))))"
proof -
  let ?sd = "sort_key last X"
  let ?G = "greedy (\<lambda>a b. iou a b > t) (rev ?sd)"
  have srt: "sortedby_confidence X = Inr ?sd"
    using assms(2) by (fastforce simp: sortedby_confidence_def list_ex_iff)
  have uniq: "\<forall>ys. (mset ys = mset X \<and> sorted (map last ys)
                     \<and> (\<forall>k. filter (\<lambda>b. last b = k) ys = filter (\<lambda>b. last b = k) X))
                   \<longleftrightarrow> ys = ?sd"
    by (intro allI stable_sort_unique)
  have four: "\<forall>b\<in>set X. 4 \<le> length b"
    using assms(2) by simp
  have sup: "suppress X t = Inr (map to_wh ?G)"
    using assms(1) four by (rule suppress_greedy)
  have ties: "\<forall>k. subseq (filter (\<lambda>r. last r = k) (map to_wh ?G)) (map to_wh (rev (filter (\<lambda>b. last b = k) X)))"
  proof
    fix k
    have "subseq ?G (rev ?sd)"
      by (rule greedy_subseq)
    then have "subseq (filter (\<lambda>b. last b = k) ?G) (filter (\<lambda>b. last b = k) (rev ?sd))"
      by (rule subseq_filter)
    moreover have "filter (\<lambda>b. last b = k) (rev ?sd) = rev (filter (\<lambda>b. last b = k) X)"
      by (simp only: rev_filter [symmetric] sort_key_stable)
    ultimately have "subseq (map to_wh (filter (\<lambda>b. last b = k) ?G)) (map to_wh (rev (filter (\<lambda>b. last b = k) X)))"
      by (simp only: subseq_map)
    moreover have "filter (\<lambda>r. last r = k) (map to_wh ?G) = map to_wh (filter (\<lambda>b. last b = k) ?G)"
    proof -
      have "set ?G \<subseteq> set X"
        using greedy_subset [of "\<lambda>a b. iou a b > t" "rev ?sd"] by simp
      with assms(2) have "\<forall>b\<in>set ?G. last (to_wh b) = last b"
        by (auto simp: last_to_wh)
      then have "filter ((\<lambda>r. last r = k) \<circ> to_wh) ?G = filter (\<lambda>b. last b = k) ?G"
        by (intro filter_cong) simp_all
      then show ?thesis by (simp only: filter_map)
    qed
    ultimately show "subseq (filter (\<lambda>r. last r = k) (map to_wh ?G)) (map to_wh (rev (filter (\<lambda>b. last b = k) X)))"
      by (simp only:)
  qed
  show ?thesis
    by (intro exI [of _ ?sd] exI [of _ "map to_wh ?G"] conjI) (rule srt uniq sup ties)+
qed

theorem ties_by_input_position_witness:
  "tied_boxes \<noteq> [] \<and> list_all (\<lambda>b. length b = 5) tied_boxes
   \<and> (\<exists>sd R. sortedby_confidence tied_boxes = Inr sd
          \<and> (\<forall>ys. (mset ys = mset tied_boxes \<and> sorted (map last ys)
                    \<and> (\<forall>k. filter (\<lambda>b. last b = k) ys = filter (\<lambda>b. last b = k) tied_boxes))
                  \<longleftrightarrow> ys = sd)
          \<and> suppress tied_boxes (1 / 2) = Inr R
          \<and> (\<forall>k. subseq (filter (\<lambda>r. last r = k) R)
                    (map to_wh (rev (filter (\<lambda>b. last b = k) tied_boxes)))))"
proof -
  have 1: "tied_boxes \<noteq> []"
    by (simp add: tied_boxes_def)
  have 2: "\<forall>b\<in>set tied_boxes. length b = 5"
    by (simp add: tied_boxes_def)
  then have l2: "list_all (\<lambda>b. length b = 5) tied_boxes"
    by (simp add: list_all_iff)
  from 1 l2 ties_by_input_position [OF 1 2, of "1 / 2"] show ?thesis
    by (intro conjI)
qed

text \<open>
The two boxes of score 0.5 come out in the reverse of their input order.
\<close>

lemma ties_example:
  "suppress tied_boxes (1 / 2)
     = Inr [[40, 40, 10, 10, 9 / 10], [20, 20, 10, 10, 1 / 2], [0, 0, 10, 10, 1 / 2]]"
  by code_simp

end
